theory Spec2Isabelle
  imports Main "HOL-Library.Char_ord" "HOL-Library.List_Lexorder" "HOL-Library.Multiset"
begin

section \<open>The graph store\<close>

text \<open>
  The backend (\<^verbatim>\<open>src/backend/routes.js\<close>) answers every request by running Cypher
  queries against a graph store of \<^verbatim>\<open>InfrastructureUnit\<close> nodes joined by
  \<^verbatim>\<open>DEPENDS_ON\<close> relationships. A node carries the properties the queries and the
  front end read (\<^verbatim>\<open>id\<close>, \<^verbatim>\<open>name\<close>, \<^verbatim>\<open>type\<close>, \<^verbatim>\<open>location\<close>,
  \<^verbatim>\<open>department\<close>, \<^verbatim>\<open>status\<close>).
\<close>

record InfrastructureUnit =
  uid :: string
  name :: string
  utype :: string
  location :: string
  department :: string
  status :: string

text \<open>
  A snapshot of the store. A node is identified by its position in \<open>nodes\<close> (the store's
  own node identity, distinct from the \<^verbatim>\<open>id\<close> property). Every node carries the label
  \<^verbatim>\<open>InfrastructureUnit\<close>. \<open>edges\<close> lists the \<^verbatim>\<open>DEPENDS_ON\<close> relationships:
  \<open>(a, b)\<close> is a relationship from node \<open>a\<close> to node \<open>b\<close> (\<open>a\<close> depends on \<open>b\<close>).
  Two equal pairs are two parallel relationships.
\<close>

record snapshot =
  nodes :: "InfrastructureUnit list"
  edges :: "(nat \<times> nat) list"

text \<open>The store only holds relationships between nodes it holds.\<close>

definition closed :: "snapshot \<Rightarrow> bool" where
  "closed s = list_all (\<lambda>(a, b). a < length (nodes s) \<and> b < length (nodes s)) (edges s)"

text \<open>The data model's invariant: the \<^verbatim>\<open>id\<close> property identifies a unit.\<close>

definition unique_ids :: "snapshot \<Rightarrow> bool" where
  "unique_ids s = distinct (map uid (nodes s))"

section \<open>The Cypher clauses the queries use\<close>

text \<open>
  Each clause is a function on lists of rows. Cypher fixes which rows a clause produces.
  It fixes their order only where \<^verbatim>\<open>ORDER BY\<close> sorts them, and then only between rows
  with different sort keys; everything else about the order is the database engine's,
  which is not part of the source. That order is a parameter of the model: the engine
  gives every row of a list of rows a rank (which may depend on the whole list), and the
  rows are arranged by rank. Every order of distinct rows is the arrangement of some rank
  (lemma \<open>arrange_any\<close>).
\<close>

definition arrange :: "('r list \<Rightarrow> 'r \<Rightarrow> nat) \<Rightarrow> 'r list \<Rightarrow> 'r list" where
  "arrange rank rows = sort_key (rank rows) rows"

text \<open>
  The ranks of an engine, one for every kind of rows whose order reaches an answer: the
  rows \<open>(n, dependentCount)\<close> and \<open>(dependent, depth)\<close> that an \<^verbatim>\<open>ORDER BY\<close> sorts,
  the rows \<open>dependent\<close> that \<^verbatim>\<open>RETURN DISTINCT\<close> hands to \<^verbatim>\<open>LIMIT\<close>, and the rows
  \<open>(name, dependencyCount)\<close>.
\<close>

record engine =
  countOrder :: "(nat \<times> nat) list \<Rightarrow> nat \<times> nat \<Rightarrow> nat"
  depthOrder :: "(nat \<times> nat) list \<Rightarrow> nat \<times> nat \<Rightarrow> nat"
  distinctOrder :: "nat list \<Rightarrow> nat \<Rightarrow> nat"
  nameOrder :: "(string \<times> nat) list \<Rightarrow> string \<times> nat \<Rightarrow> nat"

text \<open>
  \<^verbatim>\<open>MATCH (n:InfrastructureUnit) WHERE P n\<close>: the nodes satisfying \<open>P\<close>. The order of
  this list, like that of the lists of \<open>varExpand\<close>, \<open>distinctRows\<close> and \<open>groupRows\<close>
  below, has no meaning of its own: every query counts the rows, or sorts and arranges
  them, before it answers.
\<close>

definition matchNodes :: "snapshot \<Rightarrow> (InfrastructureUnit \<Rightarrow> bool) \<Rightarrow> nat list" where
  "matchNodes s P = filter (\<lambda>n. P (nodes s ! n)) [0..<length (nodes s)]"

text \<open>All ways of taking one element out of a list, with the elements left over.\<close>

fun picks :: "'a list \<Rightarrow> ('a \<times> 'a list) list" where
  "picks [] = []"
| "picks (x # xs) = (x, xs) # map (\<lambda>(y, ys). (y, x # ys)) (picks xs)"

text \<open>
  \<^verbatim>\<open>MATCH path = (dependent)-[:DEPENDS_ON*]->(v)\<close> with \<open>v\<close> bound: one row
  \<open>(dependent, LENGTH(path))\<close> for every path of one or more relationships that ends in
  \<open>v\<close> and uses no relationship twice. The paths are found by walking the relationships
  backwards from \<open>v\<close>; \<open>rels\<close> are the relationships not yet on the path and \<open>d\<close> is
  the length of the path so far.
\<close>

function varExpand :: "(nat \<times> nat) list \<Rightarrow> nat \<Rightarrow> nat \<Rightarrow> (nat \<times> nat) list" where
  "varExpand rels v d =
     concat (map (\<lambda>(r, rest). (fst r, Suc d) # varExpand rest (fst r) (Suc d))
                 (filter (\<lambda>(r, rest). snd r = v) (picks rels)))"
  by pat_completeness auto
termination
proof (relation "measure (\<lambda>(rels, v, d). length rels)")
  show "wf (measure (\<lambda>(rels, v, d). length rels))" by simp
next
  fix rels :: "(nat \<times> nat) list" and v d :: nat and p r rest
  assume p: "p \<in> set (filter (\<lambda>(r, rest). snd r = v) (picks rels))" and "(r, rest) = p"
  have shorter: "length ys < length xs" if "(y, ys) \<in> set (picks xs)"
    for y :: "nat \<times> nat" and ys xs
    using that by (induction xs arbitrary: y ys) auto
  from p \<open>(r, rest) = p\<close> have "(r, rest) \<in> set (picks rels)" by auto
  from shorter [OF this]
  show "((rest, fst r, Suc d), rels, v, d) \<in> measure (\<lambda>(rels, v, d). length rels)" by simp
qed

declare varExpand.simps [simp del]

text \<open>\<^verbatim>\<open>OPTIONAL MATCH\<close>: a single null row when the pattern has no match.\<close>

definition optionalMatch :: "'a list \<Rightarrow> 'a option list" where
  "optionalMatch rows = (if rows = [] then [None] else map Some rows)"

text \<open>\<^verbatim>\<open>DISTINCT\<close>: every row once.\<close>

fun distinctRows :: "'a list \<Rightarrow> 'a list" where
  "distinctRows [] = []"
| "distinctRows (x # xs) = x # distinctRows (filter (\<lambda>y. y \<noteq> x) xs)"

text \<open>\<^verbatim>\<open>COUNT(DISTINCT e)\<close>: nulls are not counted.\<close>

definition countDistinct :: "'a option list \<Rightarrow> nat" where
  "countDistinct vs =
     length (distinctRows (concat (map (\<lambda>v. case v of None \<Rightarrow> [] | Some x \<Rightarrow> [x]) vs)))"

text \<open>
  Aggregation groups the rows by the non-aggregated expressions of the \<^verbatim>\<open>WITH\<close> or
  \<^verbatim>\<open>RETURN\<close> clause: one group for every distinct key, holding the rows with that key.
\<close>

definition groupRows :: "('r \<Rightarrow> 'k) \<Rightarrow> 'r list \<Rightarrow> ('k \<times> 'r list) list" where
  "groupRows key rows =
     map (\<lambda>k. (k, filter (\<lambda>r. key r = k) rows)) (distinctRows (map key rows))"

text \<open>
  \<^verbatim>\<open>ORDER BY e DESC\<close> and \<^verbatim>\<open>ORDER BY e ASC\<close> on a count or a length: the rows sorted
  by the key, rows with equal keys in the engine's order.
\<close>

definition orderByDesc :: "('r list \<Rightarrow> 'r \<Rightarrow> nat) \<Rightarrow> ('r \<Rightarrow> nat) \<Rightarrow> 'r list \<Rightarrow> 'r list" where
  "orderByDesc rank key rows = sort_key (\<lambda>r. - int (key r)) (arrange rank rows)"

definition orderByAsc :: "('r list \<Rightarrow> 'r \<Rightarrow> nat) \<Rightarrow> ('r \<Rightarrow> nat) \<Rightarrow> 'r list \<Rightarrow> 'r list" where
  "orderByAsc rank key rows = sort_key key (arrange rank rows)"

section \<open>JavaScript helpers\<close>

text \<open>\<^verbatim>\<open>str.split(',')\<close>: never empty; the empty string splits into one empty string.\<close>

fun split :: "char \<Rightarrow> string \<Rightarrow> string list" where
  "split c [] = [[]]"
| "split c (x # xs) =
     (if x = c then [] # split c xs
      else (case split c xs of [] \<Rightarrow> [[x]] | w # ws \<Rightarrow> (x # w) # ws))"

text \<open>\<^verbatim>\<open>arr.join(sep)\<close>.\<close>

fun join :: "string \<Rightarrow> string list \<Rightarrow> string" where
  "join sep [] = []"
| "join sep [x] = x"
| "join sep (x # y # ys) = x @ sep @ join sep (y # ys)"

text \<open>A non-negative integer inside a template literal: its decimal digits.\<close>

fun showNat :: "nat \<Rightarrow> string" where
  "showNat n =
     (if n < 10 then [''0123456789'' ! n] else showNat (n div 10) @ [''0123456789'' ! (n mod 10)])"

declare showNat.simps [simp del]

section \<open>The request handlers\<close>

text \<open>
  The responses that are not \<^verbatim>\<open>200\<close>: \<^verbatim>\<open>400\<close> with its \<^verbatim>\<open>error\<close> text,
  \<^verbatim>\<open>404\<close> with its \<^verbatim>\<open>error\<close> and \<^verbatim>\<open>details\<close> texts, and the \<^verbatim>\<open>500\<close> of the
  \<^verbatim>\<open>catch\<close> block (\<^verbatim>\<open>Analysis failed\<close>; its \<^verbatim>\<open>details\<close> are the message of whatever
  was thrown).
\<close>

datatype error =
  BadRequest string
| NotFound string string
| AnalysisFailed

record RootCauseResult =
  rootCause :: InfrastructureUnit
  impactChain :: "InfrastructureUnit list"
  affectedServices :: nat
  criticalPath :: "string list"

record RegionAnalysisResult =
  region :: "string option"
  criticalUnits :: "(InfrastructureUnit \<times> nat) list"
  vulnerabilities :: "string list"
  totalUnits :: nat

subsection \<open>\<^verbatim>\<open>GET /root-cause\<close>\<close>

text \<open>
  The rows \<open>(root, dependent)\<close> of
  \<^verbatim>\<open>MATCH (root:InfrastructureUnit) WHERE root.type = $type AND root.location IN $locations
  OPTIONAL MATCH (dependent)-[:DEPENDS_ON*]->(root)\<close>.
\<close>

definition dependentRows :: "snapshot \<Rightarrow> nat list \<Rightarrow> (nat \<times> nat option) list" where
  "dependentRows s ns =
     concat (map (\<lambda>n. map (Pair n) (optionalMatch (map fst (varExpand (edges s) n 0)))) ns)"

text \<open>\<^verbatim>\<open>WITH n, COUNT(DISTINCT dependent) as dependentCount\<close>.\<close>

definition dependentCounts :: "(nat \<times> nat option) list \<Rightarrow> (nat \<times> nat) list" where
  "dependentCounts rows =
     map (\<lambda>(n, grp). (n, countDistinct (map snd grp))) (groupRows fst rows)"

text \<open>
  The first query of the handler, ending in
  \<^verbatim>\<open>RETURN root, dependentCount ORDER BY dependentCount DESC LIMIT 1\<close>.
\<close>

definition rootResult ::
  "engine \<Rightarrow> snapshot \<Rightarrow> string \<Rightarrow> string list \<Rightarrow> (nat \<times> nat) list" where
  "rootResult e s ty locs =
     take 1 (orderByDesc (countOrder e) snd
       (dependentCounts
         (dependentRows s (matchNodes s (\<lambda>u. utype u = ty \<and> location u \<in> set locs)))))"

text \<open>
  The second query:
  \<^verbatim>\<open>MATCH (root:InfrastructureUnit {id: $rootId})
  MATCH path = (dependent)-[:DEPENDS_ON*]->(root)
  WITH dependent, LENGTH(path) as depth ORDER BY depth ASC
  RETURN DISTINCT dependent LIMIT 10\<close>.
  The \<^verbatim>\<open>ORDER BY\<close> belongs to the \<^verbatim>\<open>WITH\<close>; the order in which \<^verbatim>\<open>RETURN DISTINCT\<close>
  hands its rows to \<^verbatim>\<open>LIMIT\<close> is the engine's.
\<close>

definition impactResult :: "engine \<Rightarrow> snapshot \<Rightarrow> string \<Rightarrow> nat list" where
  "impactResult e s rootId =
     take 10 (arrange (distinctOrder e) (distinctRows (map fst (orderByAsc (depthOrder e) snd
       (concat (map (\<lambda>root. varExpand (edges s) root 0)
                    (matchNodes s (\<lambda>u. uid u = rootId))))))))"

text \<open>
  The handler. A query parameter is absent (\<open>None\<close>) or a string; \<^verbatim>\<open>!type\<close> holds of an
  absent and of an empty one.
\<close>

definition root_cause ::
  "engine \<Rightarrow> snapshot \<Rightarrow> string option \<Rightarrow> string option \<Rightarrow> error + RootCauseResult" where
  "root_cause e s tyParam locations =
     (case (tyParam, locations) of
        (Some ty, Some locs) \<Rightarrow>
          if ty = [] \<or> locs = [] then Inl (BadRequest ''Missing type or locations parameter'')
          else
            let locationArray = split CHR '','' locs in
            (case rootResult e s ty locationArray of
               [] \<Rightarrow>
                 Inl (NotFound ''No infrastructure found''
                   (''No '' @ ty @ '' infrastructure found in the selected region. ''
                    @ ''Available locations: '' @ join '', '' locationArray))
             | (root, affectedCount) # _ \<Rightarrow>
                 let rootNode = nodes s ! root;
                     chain = map (\<lambda>d. nodes s ! d) (impactResult e s (uid rootNode))
                 in Inr \<lparr>rootCause = rootNode, impactChain = chain,
                          affectedServices = affectedCount, criticalPath = map name chain\<rparr>)
      | _ \<Rightarrow> Inl (BadRequest ''Missing type or locations parameter''))"

subsection \<open>\<^verbatim>\<open>GET /analyze-region\<close>\<close>

text \<open>
  \<^verbatim>\<open>MATCH (n:InfrastructureUnit) WHERE n.location IN $locations
  OPTIONAL MATCH (dependent)-[:DEPENDS_ON*]->(n)
  WITH n, COUNT(DISTINCT dependent) as dependentCount WHERE dependentCount > 0
  RETURN n, dependentCount ORDER BY dependentCount DESC LIMIT 5\<close>.
\<close>

definition criticalResult :: "engine \<Rightarrow> snapshot \<Rightarrow> string list \<Rightarrow> (nat \<times> nat) list" where
  "criticalResult e s locs =
     take 5 (orderByDesc (countOrder e) snd
       (filter (\<lambda>(n, dependentCount). dependentCount > 0)
         (dependentCounts (dependentRows s (matchNodes s (\<lambda>u. location u \<in> set locs))))))"

text \<open>
  \<^verbatim>\<open>MATCH (n:InfrastructureUnit) WHERE n.location IN $locations RETURN COUNT(n) as total\<close>:
  always one record.
\<close>

definition totalResult :: "snapshot \<Rightarrow> string list \<Rightarrow> nat" where
  "totalResult s locs = length (matchNodes s (\<lambda>u. location u \<in> set locs))"

text \<open>
  The handler does not check its parameters: on an absent \<^verbatim>\<open>locations\<close> the call
  \<^verbatim>\<open>locations.split(',')\<close> throws inside \<^verbatim>\<open>try\<close>, and the \<^verbatim>\<open>catch\<close> block answers
  \<^verbatim>\<open>500\<close>.
\<close>

definition analyze_region ::
  "engine \<Rightarrow> snapshot \<Rightarrow> string option \<Rightarrow> string option \<Rightarrow> error + RegionAnalysisResult"
  where
  "analyze_region e s regionParam locations =
     (case locations of
        None \<Rightarrow> Inl AnalysisFailed
      | Some locs \<Rightarrow>
          let locationArray = split CHR '','' locs;
              units = map (\<lambda>(n, dependentCount). (nodes s ! n, dependentCount))
                          (criticalResult e s locationArray);
              total = totalResult s locationArray;
              findings =
                (if length units > 0
                 then [showNat (length units) @ '' critical infrastructure units identified'',
                       ''Single point of failure risk in '' @ name (fst (units ! 0))]
                 else [])
          in Inr \<lparr>region = regionParam, criticalUnits = units,
                   vulnerabilities = findings, totalUnits = total\<rparr>)"

subsection \<open>\<^verbatim>\<open>GET /critical\<close>\<close>

text \<open>
  \<^verbatim>\<open>MATCH (n:InfrastructureUnit)<-[:DEPENDS_ON]-(x)
  RETURN n.name AS name, COUNT(x) AS dependencyCount ORDER BY dependencyCount DESC\<close>:
  one row \<open>(n.name, x)\<close> for every relationship into \<open>n\<close>, grouped by the name.
\<close>

definition critical :: "engine \<Rightarrow> snapshot \<Rightarrow> (string \<times> nat) list" where
  "critical e s =
     orderByDesc (nameOrder e) snd
       (map (\<lambda>(nm, grp). (nm, length grp))
         (groupRows fst
           (concat (map (\<lambda>n. map (\<lambda>(x, m). (name (nodes s ! n), x))
                                  (filter (\<lambda>(x, m). m = n) (edges s)))
                        (matchNodes s (\<lambda>u. True))))))"

section \<open>Notions of the specification\<close>

text \<open>
  The transitive dependents of a node \<open>v\<close>: every node from which \<open>v\<close> is reached
  along one or more \<^verbatim>\<open>DEPENDS_ON\<close> relationships.
\<close>

definition dependents :: "snapshot \<Rightarrow> nat \<Rightarrow> nat set" where
  "dependents s v = {a. (a, v) \<in> (set (edges s))\<^sup>+}"

section \<open>Example engine and snapshots\<close>

text \<open>An engine that leaves rows in the order in which it gets them.\<close>

definition position :: "'r list \<Rightarrow> 'r \<Rightarrow> nat" where
  "position rows r = length (takeWhile (\<lambda>x. x \<noteq> r) rows)"

definition inOrder :: engine where
  "inOrder = \<lparr>countOrder = position, depthOrder = position,
              distinctOrder = position, nameOrder = position\<rparr>"

definition mkUnit :: "string \<Rightarrow> string \<Rightarrow> string \<Rightarrow> string \<Rightarrow> InfrastructureUnit" where
  "mkUnit i n t l =
     \<lparr>uid = i, name = n, utype = t, location = l, department = ''city'', status = ''operational''\<rparr>"

text \<open>
  Two power plants and a switch in the north; the switch and the second plant depend on
  the first plant.
\<close>

definition scenario1 :: snapshot where
  "scenario1 =
     \<lparr>nodes = [mkUnit ''P1'' ''Plant 1'' ''power'' ''north'',
               mkUnit ''P2'' ''Plant 2'' ''power'' ''north'',
               mkUnit ''S1'' ''Switch 1'' ''telecom'' ''north''],
      edges = [(2, 0), (1, 0)]\<rparr>"

text \<open>A cycle \<open>A \<rightarrow> B \<rightarrow> C \<rightarrow> A\<close> and a unit \<open>D\<close> that depends on \<open>A\<close>.\<close>

definition scenario4 :: snapshot where
  "scenario4 =
     \<lparr>nodes = [mkUnit ''A'' ''Unit A'' ''power'' ''north'',
               mkUnit ''B'' ''Unit B'' ''water'' ''north'',
               mkUnit ''C'' ''Unit C'' ''telecom'' ''north'',
               mkUnit ''D'' ''Unit D'' ''transport'' ''north''],
      edges = [(0, 1), (1, 2), (2, 0), (3, 0)]\<rparr>"

text \<open>
  The answer of \<^verbatim>\<open>GET /root-cause?type=power&locations=south,north\<close> on the cycle, from
  the engine \<open>inOrder\<close>.
\<close>

definition scenario4_answer :: RootCauseResult where
  "scenario4_answer =
     \<lparr>rootCause = mkUnit ''A'' ''Unit A'' ''power'' ''north'',
      impactChain = [mkUnit ''C'' ''Unit C'' ''telecom'' ''north'',
                     mkUnit ''D'' ''Unit D'' ''transport'' ''north'',
                     mkUnit ''B'' ''Unit B'' ''water'' ''north'',
                     mkUnit ''A'' ''Unit A'' ''power'' ''north''],
      affectedServices = 4,
      criticalPath = [''Unit C'', ''Unit D'', ''Unit B'', ''Unit A'']\<rparr>"

text \<open>
  Two stores that differ in nothing but the \<^verbatim>\<open>id\<close> properties of their two plants,
  which are exchanged. Neither plant has a dependent.
\<close>

definition tied12 :: snapshot where
  "tied12 =
     \<lparr>nodes = [mkUnit ''1'' ''Plant'' ''power'' ''north'',
               mkUnit ''2'' ''Plant'' ''power'' ''north''],
      edges = []\<rparr>"

definition tied21 :: snapshot where
  "tied21 =
     \<lparr>nodes = [mkUnit ''2'' ''Plant'' ''power'' ''north'',
               mkUnit ''1'' ''Plant'' ''power'' ''north''],
      edges = []\<rparr>"

text \<open>
  Six units in the north and the south in a chain of dependencies, four of them with
  dependents and two without, and a unit in the east on which one of them depends.
\<close>

definition scenario3 :: snapshot where
  "scenario3 =
     \<lparr>nodes = [mkUnit ''U0'' ''Unit 0'' ''power'' ''north'',
               mkUnit ''U1'' ''Unit 1'' ''water'' ''south'',
               mkUnit ''U2'' ''Unit 2'' ''telecom'' ''north'',
               mkUnit ''U3'' ''Unit 3'' ''transport'' ''south'',
               mkUnit ''U4'' ''Unit 4'' ''power'' ''north'',
               mkUnit ''U5'' ''Unit 5'' ''water'' ''south'',
               mkUnit ''U6'' ''Unit 6'' ''power'' ''east''],
      edges = [(1, 0), (2, 1), (3, 2), (4, 3), (5, 6)]\<rparr>"

text \<open>
  The answer of \<^verbatim>\<open>GET /analyze-region?region=City&locations=south,north\<close> on it.
\<close>

definition scenario3_answer :: RegionAnalysisResult where
  "scenario3_answer =
     \<lparr>region = Some ''City'',
      criticalUnits = [(mkUnit ''U0'' ''Unit 0'' ''power'' ''north'', 4),
                       (mkUnit ''U1'' ''Unit 1'' ''water'' ''south'', 3),
                       (mkUnit ''U2'' ''Unit 2'' ''telecom'' ''north'', 2),
                       (mkUnit ''U3'' ''Unit 3'' ''transport'' ''south'', 1)],
      vulnerabilities = [''4 critical infrastructure units identified'',
                         ''Single point of failure risk in Unit 0''],
      totalUnits = 6\<rparr>"

section \<open>Properties of the clauses\<close>

lemma picks_length: "(y, ys) \<in> set (picks xs) \<Longrightarrow> length ys < length xs"
  by (induction xs arbitrary: y ys) auto

lemma picks_set: "(y, ys) \<in> set (picks xs) \<Longrightarrow> set xs = insert y (set ys)"
  by (induction xs arbitrary: y ys) auto

lemma picks_mem: "y \<in> set xs \<Longrightarrow> \<exists>ys. (y, ys) \<in> set (picks xs)"
  by (induction xs) force+

lemma varExpand_set:
  "set (varExpand rels v d) =
     (\<Union>(r, rest) \<in> {p \<in> set (picks rels). snd (fst p) = v}.
        insert (fst r, Suc d) (set (varExpand rest (fst r) (Suc d))))"
  by (subst varExpand.simps) (fastforce split: prod.splits)

lemma relpow_mono: "(r :: ('a \<times> 'a) set) \<subseteq> q \<Longrightarrow> r ^^ n \<subseteq> q ^^ n"
  by (induction n) auto

lemma varExpand_sound:
  "(a, k) \<in> set (varExpand rels v d) \<Longrightarrow> d < k \<and> (a, v) \<in> (set rels) ^^ (k - d)"
proof (induction rels v d arbitrary: a k rule: varExpand.induct)
  case (1 rels v d)
  from "1.prems" obtain u rest where pk: "((u, v), rest) \<in> set (picks rels)"
    and mem: "(a, k) = (u, Suc d) \<or> (a, k) \<in> set (varExpand rest u (Suc d))"
    by (subst (asm) varExpand_set) auto
  have sub: "set rest \<subseteq> set rels" and uv: "(u, v) \<in> set rels"
    using picks_set [OF pk] by auto
  from mem show ?case
  proof
    assume "(a, k) = (u, Suc d)"
    with uv show ?thesis by simp
  next
    assume m: "(a, k) \<in> set (varExpand rest u (Suc d))"
    have "Suc d < k \<and> (a, u) \<in> (set rest) ^^ (k - Suc d)"
      using "1.IH" [of "((u, v), rest)" "(u, v)" rest a k] pk m by simp
    then have lt: "Suc d < k" and "(a, u) \<in> (set rels) ^^ (k - Suc d)"
      using relpow_mono [OF sub] by auto
    then have "(a, v) \<in> (set rels) ^^ Suc (k - Suc d)"
      using uv by auto
    moreover have "Suc (k - Suc d) = k - d" using lt by simp
    ultimately show ?thesis using lt by simp
  qed
qed

lemma relpow_first_hit:
  "0 < n \<Longrightarrow> (a, v) \<in> r ^^ n \<Longrightarrow>
     \<exists>u m. m < n \<and> (a, u) \<in> (r - {e. snd e = v}) ^^ m \<and> (u, v) \<in> r"
proof (induction n arbitrary: a)
  case 0
  then show ?case by simp
next
  case (Suc n)
  from Suc.prems obtain b where ab: "(a, b) \<in> r" and bv: "(b, v) \<in> r ^^ n"
    by (meson relpow_Suc_D2)
  show ?case
  proof (cases "b = v")
    case True
    with ab have "(a, a) \<in> (r - {e. snd e = v}) ^^ 0 \<and> (a, v) \<in> r" by simp
    then show ?thesis by blast
  next
    case False
    then have "0 < n" using bv by (cases n) auto
    from Suc.IH [OF this bv] obtain u m where m: "m < n"
      and bu: "(b, u) \<in> (r - {e. snd e = v}) ^^ m" and uv: "(u, v) \<in> r" by blast
    from ab False have "(a, b) \<in> r - {e. snd e = v}" by simp
    with bu have "(a, u) \<in> (r - {e. snd e = v}) ^^ Suc m" by (meson relpow_Suc_I2)
    with m uv show ?thesis by (metis Suc_mono)
  qed
qed

lemma varExpand_complete:
  "0 < n \<Longrightarrow> (a, v) \<in> (set rels) ^^ n \<Longrightarrow>
     \<exists>k. k \<le> d + n \<and> (a, k) \<in> set (varExpand rels v d)"
proof (induction "length rels" arbitrary: rels a v d n rule: less_induct)
  case less
  from relpow_first_hit [OF less.prems] obtain u m where m: "m < n"
    and au: "(a, u) \<in> (set rels - {e. snd e = v}) ^^ m" and uv: "(u, v) \<in> set rels" by blast
  from picks_mem [OF uv] obtain rest where pk: "((u, v), rest) \<in> set (picks rels)" by blast
  have here: "insert (u, Suc d) (set (varExpand rest u (Suc d))) \<subseteq> set (varExpand rels v d)"
    using pk by (subst (2) varExpand_set) force
  show ?case
  proof (cases m)
    case 0
    with au have "a = u" by simp
    with here m show ?thesis by (intro exI [of _ "Suc d"]) auto
  next
    case (Suc m')
    have "set rels - {e. snd e = v} \<subseteq> set rest"
      using picks_set [OF pk] by auto
    from relpow_mono [OF this] au have "(a, u) \<in> (set rest) ^^ m" by blast
    from less.hyps [OF picks_length [OF pk] _ this, of "Suc d"] Suc
    obtain k where "k \<le> Suc d + m" "(a, k) \<in> set (varExpand rest u (Suc d))" by auto
    with here m show ?thesis by (intro exI [of _ k]) auto
  qed
qed

lemma varExpand_dependents:
  "fst ` set (varExpand rels v d) = {a. (a, v) \<in> (set rels)\<^sup>+}"
proof (intro set_eqI iffI)
  fix a assume "a \<in> fst ` set (varExpand rels v d)"
  then obtain k where "(a, k) \<in> set (varExpand rels v d)" by force
  from varExpand_sound [OF this] have "0 < k - d" "(a, v) \<in> (set rels) ^^ (k - d)" by auto
  then show "a \<in> {a. (a, v) \<in> (set rels)\<^sup>+}" unfolding trancl_power by blast
next
  fix a assume "a \<in> {a. (a, v) \<in> (set rels)\<^sup>+}"
  then obtain n where "0 < n" "(a, v) \<in> (set rels) ^^ n" unfolding trancl_power by blast
  from varExpand_complete [OF this, of d] show "a \<in> fst ` set (varExpand rels v d)" by force
qed

lemma distinctRows_set [simp]: "set (distinctRows xs) = set xs"
  by (induction xs rule: distinctRows.induct) auto

lemma distinctRows_distinct [simp]: "distinct (distinctRows xs)"
  by (induction xs rule: distinctRows.induct) auto

lemma distinctRows_length: "length (distinctRows xs) = card (set xs)"
  by (metis distinctRows_distinct distinctRows_set distinct_card)

lemma countDistinct_optionalMatch: "countDistinct (optionalMatch xs) = card (set xs)"
proof -
  have "concat (map (\<lambda>v. case v of None \<Rightarrow> [] | Some x \<Rightarrow> [x]) (map Some xs)) = xs"
    by (induction xs) auto
  then show ?thesis
    by (simp add: countDistinct_def optionalMatch_def distinctRows_length)
qed

lemma optionalMatch_nonempty: "optionalMatch xs \<noteq> []"
  by (simp add: optionalMatch_def)

text \<open>Grouping rows that were produced root by root gives back one group per root.\<close>

lemma distinctRows_blocks:
  "distinct ns \<Longrightarrow> (\<And>n. f n \<noteq> []) \<Longrightarrow>
     distinctRows (map fst (concat (map (\<lambda>n. map (Pair n) (f n)) ns))) = ns"
proof (induction ns)
  case Nil
  then show ?case by simp
next
  case (Cons n ns)
  obtain y ys where f: "f n = y # ys" using Cons.prems(2) [of n] by (cases "f n") auto
  have "filter (\<lambda>k. k \<noteq> n) (map fst (map (Pair n) ys) @ map fst (concat (map (\<lambda>n. map (Pair n) (f n)) ns)))
        = map fst (concat (map (\<lambda>n. map (Pair n) (f n)) ns))"
    using Cons.prems(1) by (auto simp: filter_empty_conv filter_id_conv)
  then show ?case using Cons f by simp
qed

lemma filter_blocks:
  "distinct ns \<Longrightarrow> k \<in> set ns \<Longrightarrow>
     filter (\<lambda>r. fst r = k) (concat (map (\<lambda>n. map (Pair n) (f n)) ns)) = map (Pair k) (f k)"
proof (induction ns)
  case Nil
  then show ?case by simp
next
  case (Cons n ns)
  have other: "k \<notin> set ms \<Longrightarrow> filter (\<lambda>r. fst r = k) (concat (map (\<lambda>n. map (Pair n) (f n)) ms)) = []" for ms
    by (induction ms) (auto simp: filter_empty_conv)
  show ?case
  proof (cases "k = n")
    case True
    then show ?thesis using Cons.prems other [of ns] by (simp add: filter_id_conv)
  next
    case False
    then show ?thesis using Cons by (simp add: filter_empty_conv)
  qed
qed

lemma matchNodes_distinct: "distinct (matchNodes s P)"
  by (simp add: matchNodes_def)

lemma matchNodes_set: "set (matchNodes s P) = {n. n < length (nodes s) \<and> P (nodes s ! n)}"
  by (auto simp: matchNodes_def)

lemma dependentCounts_rows:
  assumes "distinct ns"
  shows "dependentCounts (dependentRows s ns) =
           map (\<lambda>n. (n, card {a. (a, n) \<in> (set (edges s))\<^sup>+})) ns"
proof -
  let ?f = "\<lambda>n. optionalMatch (map fst (varExpand (edges s) n 0))"
  have g: "groupRows fst (dependentRows s ns) = map (\<lambda>n. (n, map (Pair n) (?f n))) ns"
    unfolding groupRows_def dependentRows_def
    using assms by (simp add: distinctRows_blocks optionalMatch_nonempty filter_blocks)
  have "card (set (map fst (varExpand (edges s) n 0))) = card {a. (a, n) \<in> (set (edges s))\<^sup>+}" for n
    by (simp add: varExpand_dependents)
  then show ?thesis
    unfolding dependentCounts_def g
    by (simp add: comp_def countDistinct_optionalMatch)
qed

lemma arrange_set [simp]: "set (arrange rank rows) = set rows"
  by (simp add: arrange_def)

lemma arrange_length [simp]: "length (arrange rank rows) = length rows"
  by (simp add: arrange_def)

lemma arrange_distinct [simp]: "distinct (arrange rank rows) = distinct rows"
  by (simp add: arrange_def)

lemma arrange_Nil [simp]: "arrange rank [] = []"
  by (simp add: arrange_def)

text \<open>Every order of distinct rows is the arrangement of some rank.\<close>

lemma position_nth:
  assumes "distinct ys" and "i < length ys"
  shows "position ys (ys ! i) = i"
proof -
  have "takeWhile (\<lambda>x. x \<noteq> ys ! i) ys = take i ys"
    using assms by (intro takeWhile_eq_take_P_nth) (auto simp: nth_eq_iff_index_eq)
  then show ?thesis using assms by (simp add: position_def)
qed

lemma arrange_any:
  assumes "distinct ys" and "set ys = set xs" and "distinct xs"
  shows "arrange (\<lambda>rows. position ys) xs = ys"
proof -
  have "map (position ys) ys = [0..<length ys]"
    using assms(1) by (intro nth_equalityI) (auto simp: position_nth)
  then have srt: "sorted (map (position ys) ys)" by simp
  have inj: "inj_on (position ys) (set xs)"
    unfolding assms(2) [symmetric]
    by (metis assms(1) in_set_conv_nth inj_onI position_nth)
  have "mset xs = mset ys"
    using assms by (simp add: set_eq_iff_mset_eq_distinct)
  from sort_key_inj_key_eq [OF this inj srt] show ?thesis by (simp add: arrange_def)
qed

lemma orderByDesc_set [simp]: "set (orderByDesc rank key rows) = set rows"
  by (simp add: orderByDesc_def)

lemma orderByDesc_length [simp]: "length (orderByDesc rank key rows) = length rows"
  by (simp add: orderByDesc_def)

lemma orderByDesc_distinct [simp]: "distinct (orderByDesc rank key rows) = distinct rows"
  by (simp add: orderByDesc_def)

lemma orderByDesc_Nil [simp]: "orderByDesc rank key [] = []"
  by (simp add: orderByDesc_def)

lemma orderByDesc_sorted: "sorted (rev (map key (orderByDesc rank key rows)))"
proof -
  have "sorted (map (\<lambda>r. - int (key r)) (orderByDesc rank key rows))"
    by (simp add: orderByDesc_def)
  then have "sorted_wrt (\<lambda>a b. key b \<le> key a) (orderByDesc rank key rows)"
    by (simp add: sorted_wrt_map)
  then have "sorted_wrt (\<lambda>a b. b \<le> a) (map key (orderByDesc rank key rows))"
    by (simp add: sorted_wrt_map)
  then show ?thesis by (simp add: sorted_wrt_rev)
qed

text \<open>The first row after \<^verbatim>\<open>ORDER BY e DESC\<close> has the greatest key.\<close>

lemma orderByDesc_first:
  assumes "orderByDesc rank key rows = y # ys"
  shows "y \<in> set rows \<and> (\<forall>x \<in> set rows. key x \<le> key y)"
proof -
  have "set (y # ys) = set rows" using assms orderByDesc_set [of rank key rows] by simp
  moreover have "sorted (rev (map key (y # ys)))"
    using orderByDesc_sorted [of key rank rows] assms by simp
  then have "\<forall>x \<in> set ys. key x \<le> key y" by (auto simp: sorted_append)
  ultimately show ?thesis by auto
qed

lemma orderByAsc_set [simp]: "set (orderByAsc rank key rows) = set rows"
  by (simp add: orderByAsc_def)

lemma filter_upt_eq: "root < N \<Longrightarrow> filter (\<lambda>n. n = root) [0..<N] = [root]"
  by (induction N) (auto simp: less_Suc_eq filter_empty_conv)

lemma matchNodes_unique:
  assumes "unique_ids s" "root < length (nodes s)"
  shows "matchNodes s (\<lambda>u. uid u = uid (nodes s ! root)) = [root]"
proof -
  have "uid (nodes s ! n) = uid (nodes s ! root) \<longleftrightarrow> n = root" if "n < length (nodes s)" for n
    using assms that nth_eq_iff_index_eq [of "map uid (nodes s)" n root]
    by (auto simp: unique_ids_def)
  then have "matchNodes s (\<lambda>u. uid u = uid (nodes s ! root)) = filter (\<lambda>n. n = root) [0..<length (nodes s)]"
    unfolding matchNodes_def by (intro filter_cong) auto
  also have "\<dots> = [root]"
    using assms(2) by (rule filter_upt_eq)
  finally show ?thesis .
qed

lemma matchNodes_empty_iff: "matchNodes s P = [] \<longleftrightarrow> \<not> (\<exists>u \<in> set (nodes s). P u)"
  by (auto simp: matchNodes_def filter_empty_conv in_set_conv_nth) (metis nth_mem)

lemma varExpand_bound:
  "(a, k) \<in> set (varExpand rels v d) \<Longrightarrow> k \<le> d + length rels"
proof (induction rels v d arbitrary: a k rule: varExpand.induct)
  case (1 rels v d)
  from "1.prems" obtain u rest where pk: "((u, v), rest) \<in> set (picks rels)"
    and mem: "(a, k) = (u, Suc d) \<or> (a, k) \<in> set (varExpand rest u (Suc d))"
    by (subst (asm) varExpand_set) auto
  from picks_length [OF pk] have len: "Suc (length rest) \<le> length rels" by simp
  from mem show ?case
  proof
    assume "(a, k) = (u, Suc d)"
    with len show ?thesis by simp
  next
    assume "(a, k) \<in> set (varExpand rest u (Suc d))"
    then have "k \<le> Suc d + length rest"
      using "1.IH" [of "((u, v), rest)" "(u, v)" rest a k] pk by simp
    with len show ?thesis by simp
  qed
qed

lemma matchNodes_length: "length (matchNodes s P) = length (filter P (nodes s))"
proof -
  have "filter P (map (\<lambda>n. nodes s ! n) [0..<length (nodes s)])
        = map (\<lambda>n. nodes s ! n) (matchNodes s P)"
    by (simp add: matchNodes_def filter_map comp_def)
  then have "length (filter P (nodes s)) = length (matchNodes s P)"
    by (simp add: map_nth)
  then show ?thesis by simp
qed

lemma matchNodes_all: "matchNodes s (\<lambda>u. True) = [0..<length (nodes s)]"
  by (simp add: matchNodes_def)

lemma length_filter_disj:
  "(\<And>x. x \<in> set xs \<Longrightarrow> \<not> (P x \<and> Q x)) \<Longrightarrow>
     length (filter (\<lambda>x. P x \<or> Q x) xs) = length (filter P xs) + length (filter Q xs)"
  by (induction xs) auto

text \<open>The rows of a name, counted over the relationships.\<close>

lemma incoming_rows_count:
  assumes "distinct ns"
  shows "length (filter (\<lambda>r. fst r = k)
           (concat (map (\<lambda>n. map (\<lambda>(x, m). (f n, x)) (filter (\<lambda>(x, m). m = n) es)) ns)))
         = length (filter (\<lambda>(x, m). m \<in> set ns \<and> f m = k) es)"
  using assms
proof (induction ns)
  case Nil
  then show ?case by simp
next
  case (Cons n ns)
  have one: "length (filter (\<lambda>r. fst r = k) (map (\<lambda>(x, m). (f n, x)) (filter (\<lambda>(x, m). m = n) es)))
             = length (filter (\<lambda>(x, m). m = n \<and> f m = k) es)"
    by (induction es) auto
  have "length (filter (\<lambda>(x, m). m \<in> set (n # ns) \<and> f m = k) es)
        = length (filter (\<lambda>e. (case e of (x, m) \<Rightarrow> m = n \<and> f m = k)
                            \<or> (case e of (x, m) \<Rightarrow> m \<in> set ns \<and> f m = k)) es)"
    by (intro arg_cong [where f = length] filter_cong) auto
  also have "\<dots> = length (filter (\<lambda>(x, m). m = n \<and> f m = k) es)
                  + length (filter (\<lambda>(x, m). m \<in> set ns \<and> f m = k) es)"
    using Cons.prems by (intro length_filter_disj) auto
  finally show ?case using Cons one by simp
qed

lemma incoming_rows_names:
  "set (map fst (concat (map (\<lambda>n. map (\<lambda>(x, m). (name (nodes s ! n), x))
                                      (filter (\<lambda>(x, m). m = n) (edges s)))
                            [0..<length (nodes s)])))
   = {nm. 0 < length (filter (\<lambda>(x, m). m < length (nodes s) \<and> name (nodes s ! m) = nm) (edges s))}"
  by (auto simp: filter_empty_conv) force+

lemma dependents_in_range:
  assumes "closed s" and "a \<in> dependents s v"
  shows "a < length (nodes s)"
proof -
  from assms(2) obtain b where "(a, b) \<in> set (edges s)"
    unfolding dependents_def by (auto dest: tranclD)
  with assms(1) show ?thesis
    by (auto simp: closed_def list_all_iff)
qed

section \<open>Properties of the JavaScript helpers\<close>

lemma split_nonempty: "split c xs \<noteq> []"
  by (induction xs) (auto split: list.splits)

lemma split_no_separator: "c \<notin> set x \<Longrightarrow> split c x = [x]"
  by (induction x) auto

lemma split_append: "c \<notin> set x \<Longrightarrow> split c (x @ c # rest) = x # split c rest"
  by (induction x) (auto split: list.splits simp: split_nonempty)

text \<open>
  The front end sends a list of locations joined with commas; \<^verbatim>\<open>split(',')\<close> gives the
  list back.
\<close>

lemma split_join:
  "ls \<noteq> [] \<Longrightarrow> \<forall>l \<in> set ls. c \<notin> set l \<Longrightarrow> split c (join [c] ls) = ls"
proof (induction "[c]" ls rule: join.induct)
  case 1
  then show ?case by simp
next
  case (2 x)
  then show ?case by (simp add: split_no_separator)
next
  case (3 x y ys)
  then show ?case by (simp add: split_append)
qed

lemma join_nonempty: "ls \<noteq> [] \<Longrightarrow> ls \<noteq> [[]] \<Longrightarrow> join [c] ls \<noteq> []"
proof (cases ls)
  case Nil
  then show "ls \<noteq> [] \<Longrightarrow> ?thesis" by simp
next
  case (Cons x xs)
  then show "ls \<noteq> [[]] \<Longrightarrow> ?thesis" by (cases xs) auto
qed

text \<open>A count from 1 to 5 is printed as its digit.\<close>

lemma showNat_digit: "0 < n \<Longrightarrow> n \<le> 5 \<Longrightarrow> showNat n = [''12345'' ! (n - 1)]"
proof -
  assume "0 < n" "n \<le> 5"
  then consider "n = 1" | "n = 2" | "n = 3" | "n = 4" | "n = 5" by linarith
  then show ?thesis by cases (simp_all add: showNat.simps)
qed

section \<open>Properties of the queries\<close>

lemma rootResult_none:
  "matchNodes s (\<lambda>u. utype u = ty \<and> location u \<in> set locs) = [] \<Longrightarrow> rootResult e s ty locs = []"
  by (simp add: rootResult_def dependentRows_def dependentCounts_def groupRows_def)

lemma rootResult_max:
  assumes cands: "cands = matchNodes s (\<lambda>u. utype u = ty \<and> location u \<in> set locs)"
    and ne: "cands \<noteq> []"
  shows "\<exists>root. rootResult e s ty locs = [(root, card (dependents s root))] \<and> root \<in> set cands \<and>
           (\<forall>c \<in> set cands. card (dependents s c) \<le> card (dependents s root))"
proof -
  let ?cnt = "\<lambda>n. card (dependents s n)"
  let ?xs = "map (\<lambda>n. (n, ?cnt n)) cands"
  have rr: "rootResult e s ty locs = take 1 (orderByDesc (countOrder e) snd ?xs)"
    unfolding rootResult_def cands [symmetric]
    by (simp add: dependentCounts_rows cands matchNodes_distinct dependents_def)
  have "length (orderByDesc (countOrder e) snd ?xs) = length cands" by simp
  with ne obtain y ys where srt: "orderByDesc (countOrder e) snd ?xs = y # ys"
    by (cases "orderByDesc (countOrder e) snd ?xs") auto
  from orderByDesc_first [OF srt] have y: "y \<in> set ?xs" and mx: "\<forall>x \<in> set ?xs. snd x \<le> snd y"
    by blast+
  from y obtain root where root: "y = (root, ?cnt root)" "root \<in> set cands" by auto
  from mx root have "\<forall>c \<in> set cands. ?cnt c \<le> ?cnt root" by auto
  with rr srt root show ?thesis by auto
qed

lemma impactResult_unique:
  assumes "unique_ids s" and "root < length (nodes s)"
  shows "distinct (impactResult e s (uid (nodes s ! root)))"
    and "set (impactResult e s (uid (nodes s ! root))) \<subseteq> dependents s root"
    and "length (impactResult e s (uid (nodes s ! root))) = min 10 (card (dependents s root))"
    and "card (dependents s root) \<le> 10 \<Longrightarrow>
           set (impactResult e s (uid (nodes s ! root))) = dependents s root"
proof -
  let ?all = "arrange (distinctOrder e)
                (distinctRows (map fst (orderByAsc (depthOrder e) snd (varExpand (edges s) root 0))))"
  have ir: "impactResult e s (uid (nodes s ! root)) = take 10 ?all"
    by (simp add: impactResult_def matchNodes_unique [OF assms])
  have d: "distinct ?all" by simp
  have st: "set ?all = dependents s root"
    using varExpand_dependents [of "edges s" root 0] by (simp add: dependents_def)
  have len: "length ?all = card (dependents s root)"
    using d st distinct_card [of ?all] by simp
  show "distinct (impactResult e s (uid (nodes s ! root)))"
    unfolding ir using d by (rule distinct_take)
  show "set (impactResult e s (uid (nodes s ! root))) \<subseteq> dependents s root"
    unfolding ir using st set_take_subset [of 10 ?all] by simp
  show "length (impactResult e s (uid (nodes s ! root))) = min 10 (card (dependents s root))"
    unfolding ir using len by simp
  show "set (impactResult e s (uid (nodes s ! root))) = dependents s root"
    if "card (dependents s root) \<le> 10"
    unfolding ir using that len st by simp
qed

lemma criticalResult_eq:
  "criticalResult e s locs =
     take 5 (orderByDesc (countOrder e) snd
       (filter (\<lambda>(n, c). 0 < c)
         (map (\<lambda>n. (n, card (dependents s n))) (matchNodes s (\<lambda>u. location u \<in> set locs)))))"
  by (simp add: criticalResult_def dependentCounts_rows matchNodes_distinct dependents_def)

lemma critical_eq:
  "critical e s =
     orderByDesc (nameOrder e) snd
       (map (\<lambda>nm. (nm, length (filter (\<lambda>(x, m). m < length (nodes s) \<and> name (nodes s ! m) = nm)
                                       (edges s))))
            (distinctRows (map fst
               (concat (map (\<lambda>n. map (\<lambda>(x, m). (name (nodes s ! n), x))
                                      (filter (\<lambda>(x, m). m = n) (edges s)))
                            [0..<length (nodes s)])))))"
  using incoming_rows_count [of "[0..<length (nodes s)]" _ "\<lambda>n. name (nodes s ! n)" "edges s"]
  by (simp add: critical_def groupRows_def matchNodes_all comp_def)

section \<open>Properties of the handlers\<close>

lemma root_cause_found:
  assumes "ty \<noteq> []" "locs \<noteq> []"
    and "rootResult e s ty (split CHR '','' locs) = (root, cnt) # rest"
  shows "root_cause e s (Some ty) (Some locs) =
           Inr \<lparr>rootCause = nodes s ! root,
                impactChain = map (\<lambda>d. nodes s ! d) (impactResult e s (uid (nodes s ! root))),
                affectedServices = cnt,
                criticalPath = map name (map (\<lambda>d. nodes s ! d)
                                             (impactResult e s (uid (nodes s ! root))))\<rparr>"
  using assms by (simp add: root_cause_def Let_def)

lemma root_cause_not_found:
  assumes "ty \<noteq> []" "locs \<noteq> []"
    and "rootResult e s ty (split CHR '','' locs) = []"
  shows "root_cause e s (Some ty) (Some locs) =
           Inl (NotFound ''No infrastructure found''
                 (''No '' @ ty @ '' infrastructure found in the selected region. ''
                  @ ''Available locations: '' @ join '', '' (split CHR '','' locs)))"
  using assms by (simp add: root_cause_def Let_def)

text \<open>The two ways a request with both parameters ends.\<close>

lemma root_cause_cases:
  assumes "ty \<noteq> []" "locs \<noteq> []"
    and "cands = matchNodes s (\<lambda>u. utype u = ty \<and> location u \<in> set (split CHR '','' locs))"
  shows "(cands = [] \<and> root_cause e s (Some ty) (Some locs) =
             Inl (NotFound ''No infrastructure found''
                   (''No '' @ ty @ '' infrastructure found in the selected region. ''
                    @ ''Available locations: '' @ join '', '' (split CHR '','' locs)))) \<or>
         (\<exists>root. root \<in> set cands \<and>
            (\<forall>c \<in> set cands. card (dependents s c) \<le> card (dependents s root)) \<and>
            root_cause e s (Some ty) (Some locs) =
              Inr \<lparr>rootCause = nodes s ! root,
                   impactChain = map (\<lambda>d. nodes s ! d) (impactResult e s (uid (nodes s ! root))),
                   affectedServices = card (dependents s root),
                   criticalPath = map name (map (\<lambda>d. nodes s ! d)
                                                (impactResult e s (uid (nodes s ! root))))\<rparr>)"
proof (cases "cands = []")
  case True
  then show ?thesis
    using assms rootResult_none [where s = s and ty = ty and locs = "split CHR '','' locs" and e = e]
      root_cause_not_found [where ty = ty and locs = locs and e = e and s = s] by simp
next
  case False
  from rootResult_max [OF assms(3) False, where e = e] obtain root
    where rr: "rootResult e s ty (split CHR '','' locs) = [(root, card (dependents s root))]"
      and root: "root \<in> set cands"
      and mx: "\<forall>c \<in> set cands. card (dependents s c) \<le> card (dependents s root)" by blast
  from root_cause_found [OF assms(1,2) rr] root mx show ?thesis by blast
qed

lemma root_cause_params:
  "root_cause e s tyParam locations = Inr r \<Longrightarrow>
     \<exists>ty locs. tyParam = Some ty \<and> locations = Some locs \<and> ty \<noteq> [] \<and> locs \<noteq> []"
  by (auto simp: root_cause_def split: option.splits if_splits)

lemma root_cause_ok:
  assumes "root_cause e s tyParam locations = Inr r"
  shows "\<exists>ty locs root. tyParam = Some ty \<and> locations = Some locs \<and>
           root \<in> set (matchNodes s (\<lambda>u. utype u = ty \<and> location u \<in> set (split CHR '','' locs))) \<and>
           r = \<lparr>rootCause = nodes s ! root,
                impactChain = map (\<lambda>d. nodes s ! d) (impactResult e s (uid (nodes s ! root))),
                affectedServices = card (dependents s root),
                criticalPath = map name (map (\<lambda>d. nodes s ! d)
                                             (impactResult e s (uid (nodes s ! root))))\<rparr>"
proof -
  from root_cause_params [OF assms] obtain ty locs
    where p: "tyParam = Some ty" "locations = Some locs" "ty \<noteq> []" "locs \<noteq> []" by blast
  from root_cause_cases [OF p(3,4) refl, where e = e and s = s] assms p(1,2) show ?thesis by auto
qed

lemma analyze_region_eq:
  "analyze_region e s reg (Some locs) =
     Inr \<lparr>region = reg,
          criticalUnits = map (\<lambda>(n, c). (nodes s ! n, c)) (criticalResult e s (split CHR '','' locs)),
          vulnerabilities =
            (if criticalResult e s (split CHR '','' locs) = [] then []
             else [showNat (length (criticalResult e s (split CHR '','' locs)))
                     @ '' critical infrastructure units identified'',
                   ''Single point of failure risk in ''
                     @ name (nodes s ! fst (hd (criticalResult e s (split CHR '','' locs))))]),
          totalUnits = totalResult s (split CHR '','' locs)\<rparr>"
  by (cases "criticalResult e s (split CHR '','' locs)") (auto simp: analyze_region_def Let_def)

lemma candidates_set:
  "set (matchNodes s (\<lambda>u. utype u = ty \<and> location u \<in> set ls))
     = {c. c < length (nodes s) \<and> utype (nodes s ! c) = ty \<and> location (nodes s ! c) \<in> set ls}"
  by (simp add: matchNodes_set)

text \<open>
  The two ways a request ends whose locations parameter is a list of locations joined
  with commas.
\<close>

lemma root_cause_joined:
  assumes "ty \<noteq> []" and "ls \<noteq> []" and "ls \<noteq> [[]]" and "\<forall>l \<in> set ls. CHR '','' \<notin> set l"
  shows "(\<not> (\<exists>u \<in> set (nodes s). utype u = ty \<and> location u \<in> set ls) \<and>
          root_cause e s (Some ty) (Some (join '','' ls)) =
             Inl (NotFound ''No infrastructure found''
                   (''No '' @ ty @ '' infrastructure found in the selected region. ''
                    @ ''Available locations: '' @ join '', '' ls))) \<or>
         (\<exists>root. root < length (nodes s) \<and> utype (nodes s ! root) = ty \<and>
            location (nodes s ! root) \<in> set ls \<and>
            (\<forall>c < length (nodes s). utype (nodes s ! c) = ty \<and> location (nodes s ! c) \<in> set ls
               \<longrightarrow> card (dependents s c) \<le> card (dependents s root)) \<and>
            root_cause e s (Some ty) (Some (join '','' ls)) =
              Inr \<lparr>rootCause = nodes s ! root,
                   impactChain = map (\<lambda>d. nodes s ! d) (impactResult e s (uid (nodes s ! root))),
                   affectedServices = card (dependents s root),
                   criticalPath = map name (map (\<lambda>d. nodes s ! d)
                                                (impactResult e s (uid (nodes s ! root))))\<rparr>)"
proof -
  have sp: "split CHR '','' (join '','' ls) = ls"
    using split_join [OF assms(2,4)] by simp
  have ne: "join '','' ls \<noteq> []"
    using join_nonempty [OF assms(2,3), of "CHR '',''"] by simp
  let ?P = "\<lambda>u. utype u = ty \<and> location u \<in> set ls"
  from root_cause_cases [OF assms(1) ne refl, where e = e and s = s]
  show ?thesis unfolding sp
  proof
    assume "matchNodes s ?P = [] \<and> root_cause e s (Some ty) (Some (join '','' ls)) =
             Inl (NotFound ''No infrastructure found''
                   (''No '' @ ty @ '' infrastructure found in the selected region. ''
                    @ ''Available locations: '' @ join '', '' ls))"
    then show ?thesis using matchNodes_empty_iff [of s ?P] by simp
  next
    assume "\<exists>root. root \<in> set (matchNodes s ?P) \<and>
            (\<forall>c \<in> set (matchNodes s ?P). card (dependents s c) \<le> card (dependents s root)) \<and>
            root_cause e s (Some ty) (Some (join '','' ls)) =
              Inr \<lparr>rootCause = nodes s ! root,
                   impactChain = map (\<lambda>d. nodes s ! d) (impactResult e s (uid (nodes s ! root))),
                   affectedServices = card (dependents s root),
                   criticalPath = map name (map (\<lambda>d. nodes s ! d)
                                                (impactResult e s (uid (nodes s ! root))))\<rparr>"
    then show ?thesis unfolding candidates_set by blast
  qed
qed

lemma in_nodes_iff:
  "(\<exists>u \<in> set (nodes s). P u) \<longleftrightarrow> (\<exists>c < length (nodes s). P (nodes s ! c))"
  by (metis in_set_conv_nth)

text \<open>
  What the chain of an answer holds, whatever order the engine gives to rows: at most ten
  transitive dependents of the root, each once, and all of them when there are no more
  than ten.
\<close>

lemma impact_chain_contents:
  assumes "unique_ids s" and "closed s" and "root_cause e s tyParam locations = Inr r"
  shows "\<exists>root chain. root < length (nodes s) \<and> rootCause r = nodes s ! root \<and>
           distinct chain \<and> set chain \<subseteq> dependents s root \<and>
           length chain = min 10 (card (dependents s root)) \<and>
           (\<forall>d \<in> set chain. d < length (nodes s)) \<and>
           impactChain r = map (\<lambda>d. nodes s ! d) chain \<and>
           criticalPath r = map name (impactChain r)"
proof -
  from root_cause_ok [OF assms(3)] obtain ty locs root
    where root: "root \<in> set (matchNodes s (\<lambda>u. utype u = ty \<and> location u \<in> set (split CHR '','' locs)))"
      and r: "r = \<lparr>rootCause = nodes s ! root,
                impactChain = map (\<lambda>d. nodes s ! d) (impactResult e s (uid (nodes s ! root))),
                affectedServices = card (dependents s root),
                criticalPath = map name (map (\<lambda>d. nodes s ! d)
                                             (impactResult e s (uid (nodes s ! root))))\<rparr>"
    by blast
  from root have lt: "root < length (nodes s)" by (simp add: matchNodes_set)
  let ?chain = "impactResult e s (uid (nodes s ! root))"
  note ir = impactResult_unique [OF assms(1) lt, of e]
  have "\<forall>d \<in> set ?chain. d < length (nodes s)"
    using ir(2) dependents_in_range [OF assms(2)] by blast
  moreover have "impactChain r = map (\<lambda>d. nodes s ! d) ?chain"
    and "criticalPath r = map name (impactChain r)" and "rootCause r = nodes s ! root"
    using r by simp_all
  ultimately show ?thesis using lt ir(1,2,3) by blast
qed

section \<open>The examples\<close>

lemma scenario4_root_cause:
  "root_cause inOrder scenario4 (Some ''power'') (Some ''south,north'') = Inr scenario4_answer"
  by code_simp

lemma scenario4_unique_ids: "unique_ids scenario4"
  by code_simp

lemma scenario3_analyze_region:
  "analyze_region inOrder scenario3 (Some ''City'') (Some ''south,north'') = Inr scenario3_answer"
  by code_simp

text \<open>On the two stores with exchanged ids every engine answers the plant at the same position.\<close>

lemma tied_rows:
  "dependentCounts (dependentRows tied12
      (matchNodes tied12 (\<lambda>u. utype u = ''power'' \<and> location u \<in> set (split CHR '','' ''north''))))
     = [(0, 0), (1, 0)]"
  "dependentCounts (dependentRows tied21
      (matchNodes tied21 (\<lambda>u. utype u = ''power'' \<and> location u \<in> set (split CHR '','' ''north''))))
     = [(0, 0), (1, 0)]"
  by code_simp+

lemma tied_rootResult:
  "\<exists>root \<in> {0, 1}.
     rootResult e tied12 ''power'' (split CHR '','' ''north'') = [(root, 0)] \<and>
     rootResult e tied21 ''power'' (split CHR '','' ''north'') = [(root, 0)]"
proof -
  let ?rows = "orderByDesc (countOrder e) snd [(0::nat, 0::nat), (1, 0)]"
  have "(0::nat, 0::nat) \<in> set ?rows" by simp
  then obtain y ys where rows: "?rows = y # ys"
    by (metis empty_iff empty_set neq_Nil_conv)
  have "y \<in> set ?rows" unfolding rows by simp
  then have "y = (0, 0) \<or> y = (1, 0)" by simp
  then obtain root where "root \<in> {0, 1}" "y = (root, 0)" by auto
  then show ?thesis
    unfolding rootResult_def tied_rows rows by auto
qed

lemma tied_units:
  "uid (nodes tied12 ! 0) = ''1''" "uid (nodes tied12 ! 1) = ''2''"
  "uid (nodes tied21 ! 0) = ''2''" "uid (nodes tied21 ! 1) = ''1''"
  by code_simp+

lemma scenario4_dependents:
  shows "card (dependents scenario4 0) = 4" and "0 \<in> dependents scenario4 0"
proof -
  have rows: "map fst (varExpand (edges scenario4) 0 0) = [2, 1, 0, 3, 3]" by code_simp
  have "dependents scenario4 0 = set (map fst (varExpand (edges scenario4) 0 0))"
    using varExpand_dependents [of "edges scenario4" 0 0] by (simp add: dependents_def)
  then have d: "dependents scenario4 0 = {0, 1, 2, 3}" unfolding rows by auto
  show "card (dependents scenario4 0) = 4" unfolding d by simp
  show "0 \<in> dependents scenario4 0" unfolding d by simp
qed

lemma scenario1_incoming:
  "map (\<lambda>(nm, grp). (nm, length grp))
     (groupRows fst
       (concat (map (\<lambda>n. map (\<lambda>(x, m). (name (nodes scenario1 ! n), x))
                              (filter (\<lambda>(x, m). m = n) (edges scenario1)))
                    (matchNodes scenario1 (\<lambda>u. True)))))
   = [(''Plant 1'', 2)]"
  by code_simp

section \<open>The claims\<close>

text \<open>
  Claim C2. With a type and a list of locations given (sent joined with commas),
  \<^verbatim>\<open>GET /root-cause\<close> answers \<^verbatim>\<open>404\<close> (not found) exactly when no unit has both the
  requested type and a location of the list, and the \<^verbatim>\<open>details\<close> of that answer carry
  the requested type and the locations of the list, joined with a comma and a space;
  otherwise it answers with a result.
\<close>

theorem root_cause_not_found_iff:
  assumes "ty \<noteq> []" and "ls \<noteq> []" and "ls \<noteq> [[]]" and "\<forall>l \<in> set ls. CHR '','' \<notin> set l"
  shows "(root_cause e s (Some ty) (Some (join '','' ls)) =
            Inl (NotFound ''No infrastructure found''
                  (''No '' @ ty @ '' infrastructure found in the selected region. Available locations: ''
                   @ join '', '' ls)))
         = (\<not> (\<exists>u \<in> set (nodes s). utype u = ty \<and> location u \<in> set ls))
       \<and> (\<exists>r. root_cause e s (Some ty) (Some (join '','' ls)) = Inr r)
         = (\<exists>u \<in> set (nodes s). utype u = ty \<and> location u \<in> set ls)"
proof -
  from root_cause_joined [OF assms, of s e]
  show ?thesis
  proof
    assume "\<not> (\<exists>u \<in> set (nodes s). utype u = ty \<and> location u \<in> set ls) \<and>
          root_cause e s (Some ty) (Some (join '','' ls)) =
             Inl (NotFound ''No infrastructure found''
                   (''No '' @ ty @ '' infrastructure found in the selected region. ''
                    @ ''Available locations: '' @ join '', '' ls))"
    then show ?thesis by simp
  next
    assume "\<exists>root. root < length (nodes s) \<and> utype (nodes s ! root) = ty \<and>
            location (nodes s ! root) \<in> set ls \<and>
            (\<forall>c < length (nodes s). utype (nodes s ! c) = ty \<and> location (nodes s ! c) \<in> set ls
               \<longrightarrow> card (dependents s c) \<le> card (dependents s root)) \<and>
            root_cause e s (Some ty) (Some (join '','' ls)) =
              Inr \<lparr>rootCause = nodes s ! root,
                   impactChain = map (\<lambda>d. nodes s ! d) (impactResult e s (uid (nodes s ! root))),
                   affectedServices = card (dependents s root),
                   criticalPath = map name (map (\<lambda>d. nodes s ! d)
                                                (impactResult e s (uid (nodes s ! root))))\<rparr>"
    then obtain root where "root < length (nodes s)" "utype (nodes s ! root) = ty"
      "location (nodes s ! root) \<in> set ls"
      and ok: "\<exists>r. root_cause e s (Some ty) (Some (join '','' ls)) = Inr r" by blast
    then have "\<exists>u \<in> set (nodes s). utype u = ty \<and> location u \<in> set ls"
      unfolding in_nodes_iff by blast
    with ok show ?thesis by auto
  qed
qed

theorem root_cause_not_found_iff_witness:
  "root_cause inOrder scenario1 (Some ''water'') (Some ''east,west'') =
     Inl (NotFound ''No infrastructure found''
           ''No water infrastructure found in the selected region. Available locations: east, west'') \<and>
   (\<exists>r. root_cause inOrder scenario1 (Some ''power'') (Some ''south,north'') = Inr r)"
proof -
  have "\<not> (\<exists>u \<in> set (nodes scenario1). utype u = ''water'' \<and> location u \<in> set [''east'', ''west''])"
    by code_simp
  then have 1: "root_cause inOrder scenario1 (Some ''water'') (Some ''east,west'') =
     Inl (NotFound ''No infrastructure found''
           ''No water infrastructure found in the selected region. Available locations: east, west'')"
    using root_cause_not_found_iff [of "''water''" "[''east'', ''west'']" inOrder scenario1] by simp
  have "\<exists>u \<in> set (nodes scenario1). utype u = ''power'' \<and> location u \<in> set [''south'', ''north'']"
    by code_simp
  then have 2: "\<exists>r. root_cause inOrder scenario1 (Some ''power'') (Some ''south,north'') = Inr r"
    using root_cause_not_found_iff [of "''power''" "[''south'', ''north'']" inOrder scenario1] by simp
  from 1 2 show ?thesis by blast
qed

text \<open>
  Claim C1, as the code has it. With a type and a list of locations given (sent joined
  with commas) and at least one unit of that type in one of the locations,
  \<^verbatim>\<open>GET /root-cause\<close> answers, whatever order the engine gives to rows, with a result
  whose \<^verbatim>\<open>rootCause\<close> is a unit of that type in one of the locations, with the greatest
  number of transitive dependents among these units. The query orders by that number
  alone: it names no key that decides between candidates with the same number.
\<close>

theorem root_cause_most_dependents:
  assumes "ty \<noteq> []" and "ls \<noteq> []" and "ls \<noteq> [[]]" and "\<forall>l \<in> set ls. CHR '','' \<notin> set l"
    and "\<exists>u \<in> set (nodes s). utype u = ty \<and> location u \<in> set ls"
  shows "\<exists>r root. root_cause e s (Some ty) (Some (join '','' ls)) = Inr r \<and>
           root < length (nodes s) \<and> rootCause r = nodes s ! root \<and>
           utype (rootCause r) = ty \<and> location (rootCause r) \<in> set ls \<and>
           (\<forall>c < length (nodes s). utype (nodes s ! c) = ty \<and> location (nodes s ! c) \<in> set ls
              \<longrightarrow> card (dependents s c) \<le> card (dependents s root))"
proof -
  from root_cause_joined [OF assms(1-4), of s e] assms(5) obtain root
    where root: "root < length (nodes s)" "utype (nodes s ! root) = ty"
        "location (nodes s ! root) \<in> set ls"
      and mx: "\<forall>c < length (nodes s). utype (nodes s ! c) = ty \<and> location (nodes s ! c) \<in> set ls
               \<longrightarrow> card (dependents s c) \<le> card (dependents s root)"
      and rc: "root_cause e s (Some ty) (Some (join '','' ls)) =
              Inr \<lparr>rootCause = nodes s ! root,
                   impactChain = map (\<lambda>d. nodes s ! d) (impactResult e s (uid (nodes s ! root))),
                   affectedServices = card (dependents s root),
                   criticalPath = map name (map (\<lambda>d. nodes s ! d)
                                                (impactResult e s (uid (nodes s ! root))))\<rparr>"
    by blast
  show ?thesis
    using root mx rc
    by (intro exI [of _ root] exI [of _ "\<lparr>rootCause = nodes s ! root,
                   impactChain = map (\<lambda>d. nodes s ! d) (impactResult e s (uid (nodes s ! root))),
                   affectedServices = card (dependents s root),
                   criticalPath = map name (map (\<lambda>d. nodes s ! d)
                                                (impactResult e s (uid (nodes s ! root))))\<rparr>"]) simp
qed

theorem root_cause_most_dependents_witness:
  "\<exists>r root. root_cause inOrder scenario1 (Some ''power'') (Some ''south,north'') = Inr r \<and>
     root < length (nodes scenario1) \<and> rootCause r = nodes scenario1 ! root \<and>
     utype (rootCause r) = ''power'' \<and> location (rootCause r) \<in> set [''south'', ''north''] \<and>
     (\<forall>c < length (nodes scenario1).
        utype (nodes scenario1 ! c) = ''power'' \<and>
        location (nodes scenario1 ! c) \<in> set [''south'', ''north'']
        \<longrightarrow> card (dependents scenario1 c) \<le> card (dependents scenario1 root))"
proof -
  have "\<exists>u \<in> set (nodes scenario1). utype u = ''power'' \<and> location u \<in> set [''south'', ''north'']"
    by code_simp
  then show ?thesis
    using root_cause_most_dependents [of "''power''" "[''south'', ''north'']" scenario1 inOrder]
    by simp
qed
text \<open>
  The claim as stated fails whatever the engine does. The stores \<open>tied12\<close> and \<open>tied21\<close>
  differ only in the ids of their two plants, neither of which has a dependent, and the
  first query reads no id: the rows that are ordered are the same for both stores, so the
  answer is the plant at the same position of both. In one of the two stores that is the
  plant with id \<open>2\<close>, though the plant with the smaller id \<open>1\<close> has as many dependents.
\<close>

theorem root_cause_tie_counterexample:
  "(\<forall>e. (\<exists>r. root_cause e tied12 (Some ''power'') (Some ''north'') = Inr r \<and>
              uid (rootCause r) = ''2'' \<and> affectedServices r = 0) \<or>
         (\<exists>r. root_cause e tied21 (Some ''power'') (Some ''north'') = Inr r \<and>
              uid (rootCause r) = ''2'' \<and> affectedServices r = 0)) \<and>
   nodes tied12 ! 0 = mkUnit ''1'' ''Plant'' ''power'' ''north'' \<and> dependents tied12 0 = {} \<and>
   nodes tied21 ! 1 = mkUnit ''1'' ''Plant'' ''power'' ''north'' \<and> dependents tied21 1 = {} \<and>
   uid (mkUnit ''1'' ''Plant'' ''power'' ''north'') < uid (mkUnit ''2'' ''Plant'' ''power'' ''north'')"
proof -
  have first: "(\<exists>r. root_cause e tied12 (Some ''power'') (Some ''north'') = Inr r \<and>
              uid (rootCause r) = ''2'' \<and> affectedServices r = 0) \<or>
         (\<exists>r. root_cause e tied21 (Some ''power'') (Some ''north'') = Inr r \<and>
              uid (rootCause r) = ''2'' \<and> affectedServices r = 0)" for e
  proof -
    from tied_rootResult [of e] obtain root where root: "root = 0 \<or> root = 1"
      and r12: "rootResult e tied12 ''power'' (split CHR '','' ''north'') = [(root, 0)]"
      and r21: "rootResult e tied21 ''power'' (split CHR '','' ''north'') = [(root, 0)]"
      by auto
    from root show ?thesis
    proof
      assume "root = 0"
      with root_cause_found [OF _ _ r21] tied_units(3) show ?thesis by simp
    next
      assume "root = 1"
      with root_cause_found [OF _ _ r12] tied_units(2) show ?thesis by simp
    qed
  qed
  have "nodes tied12 ! 0 = mkUnit ''1'' ''Plant'' ''power'' ''north''"
    and "nodes tied21 ! 1 = mkUnit ''1'' ''Plant'' ''power'' ''north''"
    by code_simp+
  moreover have "dependents tied12 0 = {}" "dependents tied21 1 = {}"
    by (simp_all add: dependents_def tied12_def tied21_def)
  moreover have "uid (mkUnit ''1'' ''Plant'' ''power'' ''north'')
                 < uid (mkUnit ''2'' ''Plant'' ''power'' ''north'')"
    by (simp add: mkUnit_def)
  ultimately show ?thesis using first by blast
qed



text \<open>
  Claim C5, as the code has it. The path search is a total function on every snapshot,
  cyclic or not: a path uses no relationship twice, so no reported path is longer than
  the number of relationships. \<^verbatim>\<open>DISTINCT\<close> reports every dependent once, and the
  dependents reported for \<open>v\<close> are exactly the nodes with a path of one or more
  relationships to \<open>v\<close>; \<^verbatim>\<open>COUNT(DISTINCT dependent)\<close> is their number. The queried
  node itself is among them exactly when it lies on a cycle.
\<close>

theorem dependents_once_and_root_on_cycle:
  "distinct (distinctRows (map fst (varExpand (edges s) v 0))) \<and>
   set (distinctRows (map fst (varExpand (edges s) v 0))) = {a. (a, v) \<in> (set (edges s))\<^sup>+} \<and>
   countDistinct (optionalMatch (map fst (varExpand (edges s) v 0)))
     = card {a. (a, v) \<in> (set (edges s))\<^sup>+} \<and>
   (v \<in> set (distinctRows (map fst (varExpand (edges s) v 0))) \<longleftrightarrow> (v, v) \<in> (set (edges s))\<^sup>+) \<and>
   (\<forall>(a, k) \<in> set (varExpand (edges s) v 0). 0 < k \<and> k \<le> length (edges s))"
proof -
  have st: "set (map fst (varExpand (edges s) v 0)) = {a. (a, v) \<in> (set (edges s))\<^sup>+}"
    using varExpand_dependents [of "edges s" v 0] by simp
  have "0 < k \<and> k \<le> length (edges s)" if "(a, k) \<in> set (varExpand (edges s) v 0)" for a k
    using varExpand_sound [OF that] varExpand_bound [OF that] by simp
  then have "\<forall>(a, k) \<in> set (varExpand (edges s) v 0). 0 < k \<and> k \<le> length (edges s)"
    by blast
  moreover have "countDistinct (optionalMatch (map fst (varExpand (edges s) v 0)))
     = card {a. (a, v) \<in> (set (edges s))\<^sup>+}"
    by (simp only: countDistinct_optionalMatch st)
  ultimately show ?thesis using st by simp
qed

theorem dependents_once_and_root_on_cycle_witness:
  "(0, 3) \<in> set (varExpand (edges scenario4) 0 0) \<and> 3 \<le> length (edges scenario4) \<and>
   (0, 0) \<in> (set (edges scenario4))\<^sup>+"
proof -
  have "(0, 3) \<in> set (varExpand (edges scenario4) 0 0)" by code_simp
  then show ?thesis
    using dependents_once_and_root_on_cycle [of scenario4 0] by force
qed

text \<open>
  The claim as stated fails on the cycle of \<open>scenario4\<close>, whatever order the engine gives
  to rows: the root \<open>A\<close> is an entry of its own impact chain, and the count is 4, the
  number of all units.
\<close>

theorem root_in_own_chain_counterexample:
  "root_cause inOrder scenario4 (Some ''power'') (Some ''south,north'') = Inr scenario4_answer \<and>
   rootCause scenario4_answer \<in> set (impactChain scenario4_answer) \<and>
   affectedServices scenario4_answer = length (nodes scenario4) \<and>
   (\<forall>e. \<exists>r. root_cause e scenario4 (Some ''power'') (Some ''south,north'') = Inr r \<and>
      rootCause r \<in> set (impactChain r) \<and> affectedServices r = length (nodes scenario4))"
proof -
  have 1: "rootCause scenario4_answer \<in> set (impactChain scenario4_answer)"
    by (simp add: scenario4_answer_def)
  have 2: "affectedServices scenario4_answer = length (nodes scenario4)"
    by (simp add: scenario4_answer_def scenario4_def)
  have 3: "\<exists>r. root_cause e scenario4 (Some ''power'') (Some ''south,north'') = Inr r \<and>
      rootCause r \<in> set (impactChain r) \<and> affectedServices r = length (nodes scenario4)" for e
  proof -
    have cands: "matchNodes scenario4
       (\<lambda>u. utype u = ''power'' \<and> location u \<in> set (split CHR '','' ''south,north'')) = [0]"
      by code_simp
    from root_cause_cases [OF _ _ refl, where e = e and s = scenario4 and ty = "''power''"
        and locs = "''south,north''"]
    have rc: "root_cause e scenario4 (Some ''power'') (Some ''south,north'') =
              Inr \<lparr>rootCause = nodes scenario4 ! 0,
                   impactChain = map (\<lambda>d. nodes scenario4 ! d)
                                     (impactResult e scenario4 (uid (nodes scenario4 ! 0))),
                   affectedServices = card (dependents scenario4 0),
                   criticalPath = map name (map (\<lambda>d. nodes scenario4 ! d)
                                     (impactResult e scenario4 (uid (nodes scenario4 ! 0))))\<rparr>"
      unfolding cands by simp
    have "set (impactResult e scenario4 (uid (nodes scenario4 ! 0))) = dependents scenario4 0"
      using impactResult_unique(4) [OF scenario4_unique_ids, of 0 e] scenario4_dependents(1)
      by (simp add: scenario4_def)
    then have "0 \<in> set (impactResult e scenario4 (uid (nodes scenario4 ! 0)))"
      using scenario4_dependents(2) by simp
    then have "nodes scenario4 ! 0
               \<in> set (map (\<lambda>d. nodes scenario4 ! d)
                           (impactResult e scenario4 (uid (nodes scenario4 ! 0))))"
      by (simp only: set_map) (rule imageI)
    moreover have "card (dependents scenario4 0) = length (nodes scenario4)"
      using scenario4_dependents(1) by (simp add: scenario4_def)
    ultimately show ?thesis unfolding rc by simp
  qed
  from 1 2 3 scenario4_root_cause show ?thesis by blast
qed

text \<open>
  Claim C6, as the code has it. \<^verbatim>\<open>GET /critical\<close> matches only units that have a
  relationship pointing to them and groups by the unit's name: it returns one entry for
  every name borne by a unit with at least one direct dependent, with the number of
  \<^verbatim>\<open>DEPENDS_ON\<close> relationships that point to units of that name (no traversal), sorted
  descending by that number, with no cap. A unit without direct dependents has no entry.
  Where names are unique, the entry of a unit holds the number of relationships pointing
  to it.
\<close>

theorem critical_entries:
  "set (critical e s) =
     {(nm, c). c = length (filter (\<lambda>(x, m). m < length (nodes s) \<and> name (nodes s ! m) = nm)
                                  (edges s)) \<and> 0 < c} \<and>
   distinct (map fst (critical e s)) \<and> sorted (rev (map snd (critical e s))) \<and>
   (distinct (map name (nodes s)) \<longrightarrow>
      (\<forall>n < length (nodes s). 0 < length (filter (\<lambda>(x, m). m = n) (edges s)) \<longrightarrow>
         (name (nodes s ! n), length (filter (\<lambda>(x, m). m = n) (edges s))) \<in> set (critical e s)))"
proof -
  let ?cnt = "\<lambda>nm. length (filter (\<lambda>(x, m). m < length (nodes s) \<and> name (nodes s ! m) = nm) (edges s))"
  let ?names = "distinctRows (map fst
               (concat (map (\<lambda>n. map (\<lambda>(x, m). (name (nodes s ! n), x))
                                      (filter (\<lambda>(x, m). m = n) (edges s)))
                            [0..<length (nodes s)])))"
  have ce: "critical e s = orderByDesc (nameOrder e) snd (map (\<lambda>nm. (nm, ?cnt nm)) ?names)"
    by (rule critical_eq)
  have names: "set ?names = {nm. 0 < ?cnt nm}"
    using incoming_rows_names [of s] by simp
  have 1: "set (critical e s) = {(nm, c). c = ?cnt nm \<and> 0 < c}"
    unfolding ce using names by auto
  have 2: "distinct (map fst (critical e s))"
    unfolding ce by (simp add: distinct_map inj_on_def)
  have 3: "sorted (rev (map snd (critical e s)))"
    unfolding ce by (rule orderByDesc_sorted)
  have 4: "(name (nodes s ! n), length (filter (\<lambda>(x, m). m = n) (edges s))) \<in> set (critical e s)"
    if d: "distinct (map name (nodes s))" and n: "n < length (nodes s)"
      and pos: "0 < length (filter (\<lambda>(x, m). m = n) (edges s))" for n
  proof -
    have "name (nodes s ! m) = name (nodes s ! n) \<longleftrightarrow> m = n" if "m < length (nodes s)" for m
      using d n that nth_eq_iff_index_eq [of "map name (nodes s)" m n] by auto
    then have "filter (\<lambda>(x, m). m < length (nodes s) \<and> name (nodes s ! m) = name (nodes s ! n)) (edges s)
               = filter (\<lambda>(x, m). m = n) (edges s)"
      using n by (intro filter_cong) auto
    then have "?cnt (name (nodes s ! n)) = length (filter (\<lambda>(x, m). m = n) (edges s))" by simp
    with pos show ?thesis unfolding 1 by simp
  qed
  from 1 2 3 4 show ?thesis by blast
qed

theorem critical_entries_witness:
  "distinct (map name (nodes scenario1)) \<and> (0::nat) < length (nodes scenario1) \<and>
   0 < length (filter (\<lambda>(x, m). m = 0) (edges scenario1)) \<and>
   (name (nodes scenario1 ! 0), length (filter (\<lambda>(x, m). m = 0) (edges scenario1)))
     \<in> set (critical inOrder scenario1)"
proof -
  have d: "distinct (map name (nodes scenario1))"
    and n: "(0::nat) < length (nodes scenario1)"
    and p: "0 < length (filter (\<lambda>(x, m). m = 0) (edges scenario1))"
    by code_simp+
  from critical_entries [of inOrder scenario1]
  have "distinct (map name (nodes scenario1)) \<longrightarrow>
      (\<forall>n < length (nodes scenario1). 0 < length (filter (\<lambda>(x, m). m = n) (edges scenario1)) \<longrightarrow>
         (name (nodes scenario1 ! n), length (filter (\<lambda>(x, m). m = n) (edges scenario1)))
           \<in> set (critical inOrder scenario1))"
    by (elim conjE)
  from this d
  have "\<forall>n < length (nodes scenario1). 0 < length (filter (\<lambda>(x, m). m = n) (edges scenario1)) \<longrightarrow>
         (name (nodes scenario1 ! n), length (filter (\<lambda>(x, m). m = n) (edges scenario1)))
           \<in> set (critical inOrder scenario1)"
    by (rule mp)
  then have "0 < length (nodes scenario1) \<longrightarrow>
       0 < length (filter (\<lambda>(x, m). m = 0) (edges scenario1)) \<longrightarrow>
         (name (nodes scenario1 ! 0), length (filter (\<lambda>(x, m). m = 0) (edges scenario1)))
           \<in> set (critical inOrder scenario1)"
    by (rule spec)
  from this [THEN mp, OF n, THEN mp, OF p] d n p show ?thesis by (intro conjI)
qed

text \<open>
  The claim as stated fails on \<open>scenario1\<close>: of the three units only the first plant has
  an entry; the second plant and the switch, on which nothing depends, have none.
\<close>

theorem critical_entries_counterexample:
  "(\<forall>e. critical e scenario1 = [(''Plant 1'', 2)]) \<and> length (nodes scenario1) = 3 \<and>
   name (nodes scenario1 ! 1) = ''Plant 2'' \<and> name (nodes scenario1 ! 2) = ''Switch 1''"
proof -
  have "critical e scenario1 = [(''Plant 1'', 2)]" for e
    unfolding critical_def scenario1_incoming by (simp add: orderByDesc_def arrange_def)
  moreover have "length (nodes scenario1) = 3 \<and>
   name (nodes scenario1 ! 1) = ''Plant 2'' \<and> name (nodes scenario1 ! 2) = ''Switch 1''"
    by code_simp
  ultimately show ?thesis by blast
qed

text \<open>
  Claim C7. With a list of locations given (sent joined with commas),
  \<^verbatim>\<open>GET /analyze-region\<close> answers with \<^verbatim>\<open>criticalUnits\<close> the first five entries of a
  ranking of the units in the listed locations that have at least one transitive
  dependent, in descending order of their number of transitive dependents; with
  \<^verbatim>\<open>totalUnits\<close> the number of all units in the listed locations; and with two findings
  when \<^verbatim>\<open>criticalUnits\<close> is not empty (the first begins with the number of critical
  units, a digit from 1 to 5, and the second names the first unit as single point of
  failure), none otherwise.
\<close>

theorem analyze_region_result:
  assumes "ls \<noteq> []" and "\<forall>l \<in> set ls. CHR '','' \<notin> set l"
  shows "\<exists>r ranked. analyze_region e s reg (Some (join '','' ls)) = Inr r \<and>
     set ranked = {(n, c). n < length (nodes s) \<and> location (nodes s ! n) \<in> set ls \<and>
                     c = card (dependents s n) \<and> 0 < c} \<and>
     distinct ranked \<and> sorted (rev (map snd ranked)) \<and>
     criticalUnits r = map (\<lambda>(n, c). (nodes s ! n, c)) (take 5 ranked) \<and>
     length (criticalUnits r) \<le> 5 \<and>
     totalUnits r = length (filter (\<lambda>u. location u \<in> set ls) (nodes s)) \<and>
     vulnerabilities r =
       (if criticalUnits r = [] then []
        else [[''12345'' ! (length (criticalUnits r) - 1)]
                @ '' critical infrastructure units identified'',
              ''Single point of failure risk in '' @ name (fst (hd (criticalUnits r)))])"
proof -
  have sp: "split CHR '','' (join '','' ls) = ls"
    using split_join [OF assms] by simp
  let ?ranked = "orderByDesc (countOrder e) snd (filter (\<lambda>(n, c). 0 < c)
         (map (\<lambda>n. (n, card (dependents s n))) (matchNodes s (\<lambda>u. location u \<in> set ls))))"
  let ?r = "\<lparr>region = reg,
          criticalUnits = map (\<lambda>(n, c). (nodes s ! n, c)) (criticalResult e s ls),
          vulnerabilities =
            (if criticalResult e s ls = [] then []
             else [showNat (length (criticalResult e s ls))
                     @ '' critical infrastructure units identified'',
                   ''Single point of failure risk in ''
                     @ name (nodes s ! fst (hd (criticalResult e s ls)))]),
          totalUnits = totalResult s ls\<rparr>"
  have ar: "analyze_region e s reg (Some (join '','' ls)) = Inr ?r"
    using analyze_region_eq [of e s reg "join '','' ls"] unfolding sp .
  have cr: "criticalResult e s ls = take 5 ?ranked" by (rule criticalResult_eq)
  have 1: "set ?ranked = {(n, c). n < length (nodes s) \<and> location (nodes s ! n) \<in> set ls \<and>
                     c = card (dependents s n) \<and> 0 < c}"
    by (auto simp: matchNodes_set)
  have 2: "distinct ?ranked"
    by (simp add: distinct_map matchNodes_distinct inj_on_def distinct_map_filter)
  have 3: "sorted (rev (map snd ?ranked))" by (rule orderByDesc_sorted)
  have 4: "criticalUnits ?r = map (\<lambda>(n, c). (nodes s ! n, c)) (take 5 ?ranked)"
    by (simp add: cr)
  have 5: "length (criticalUnits ?r) \<le> 5" by (simp add: cr)
  have 6: "totalUnits ?r = length (filter (\<lambda>u. location u \<in> set ls) (nodes s))"
    by (simp add: totalResult_def matchNodes_length)
  have 7: "vulnerabilities ?r =
       (if criticalUnits ?r = [] then []
        else [[''12345'' ! (length (criticalUnits ?r) - 1)]
                @ '' critical infrastructure units identified'',
              ''Single point of failure risk in '' @ name (fst (hd (criticalUnits ?r)))])"
  proof (cases "criticalResult e s ls")
    case Nil
    then show ?thesis by simp
  next
    case (Cons x xs)
    have "length (criticalResult e s ls) \<le> 5"
      unfolding cr by simp
    moreover have "0 < length (criticalResult e s ls)"
      using Cons by simp
    ultimately have "0 < length (criticalResult e s ls)" "length (criticalResult e s ls) \<le> 5"
      by simp_all
    from showNat_digit [OF this]
    show ?thesis using Cons by (auto split: prod.splits)
  qed
  show ?thesis
    using ar 1 2 3 4 5 6 7
    by (intro exI [of _ ?r] exI [of _ ?ranked] conjI)
qed

theorem analyze_region_result_witness:
  "analyze_region inOrder scenario3 (Some ''City'') (Some ''south,north'') = Inr scenario3_answer \<and>
   vulnerabilities scenario3_answer
     = [''4 critical infrastructure units identified'', ''Single point of failure risk in Unit 0''] \<and>
   (\<exists>ranked.
     set ranked = {(n, c). n < length (nodes scenario3) \<and>
                     location (nodes scenario3 ! n) \<in> set [''south'', ''north''] \<and>
                     c = card (dependents scenario3 n) \<and> 0 < c} \<and>
     distinct ranked \<and> sorted (rev (map snd ranked)) \<and>
     criticalUnits scenario3_answer = map (\<lambda>(n, c). (nodes scenario3 ! n, c)) (take 5 ranked) \<and>
     length (criticalUnits scenario3_answer) \<le> 5 \<and>
     totalUnits scenario3_answer
       = length (filter (\<lambda>u. location u \<in> set [''south'', ''north'']) (nodes scenario3)) \<and>
     vulnerabilities scenario3_answer =
       (if criticalUnits scenario3_answer = [] then []
        else [[''12345'' ! (length (criticalUnits scenario3_answer) - 1)]
                @ '' critical infrastructure units identified'',
              ''Single point of failure risk in ''
                @ name (fst (hd (criticalUnits scenario3_answer)))]))"
proof -
  have v: "vulnerabilities scenario3_answer
     = [''4 critical infrastructure units identified'', ''Single point of failure risk in Unit 0'']"
    by (simp add: scenario3_answer_def)
  have j: "join '','' [''south'', ''north''] = ''south,north''" by simp
  from analyze_region_result [of "[''south'', ''north'']" inOrder scenario3 "Some ''City''"]
  show ?thesis unfolding j scenario3_analyze_region using v scenario3_analyze_region by auto
qed

text \<open>
  Claim C8, on \<^verbatim>\<open>GET /analyze-region\<close>. \<^verbatim>\<open>GET /root-cause\<close> rejects an absent or
  empty locations parameter with \<^verbatim>\<open>400\<close> before any query. \<^verbatim>\<open>GET /analyze-region\<close>
  has no such check: an absent parameter ends in the \<^verbatim>\<open>500\<close> of the \<^verbatim>\<open>catch\<close>
  block, and an empty one runs both queries and answers with an empty analysis.
\<close>

theorem analyze_region_unchecked_locations:
  "analyze_region e s reg None = Inl AnalysisFailed \<and>
   analyze_region e scenario3 (Some ''North'') (Some '''') =
     Inr \<lparr>region = Some ''North'', criticalUnits = [], vulnerabilities = [], totalUnits = 0\<rparr> \<and>
   root_cause e s ty None = Inl (BadRequest ''Missing type or locations parameter'') \<and>
   root_cause e s ty (Some '''') = Inl (BadRequest ''Missing type or locations parameter'')"
proof -
  have none: "matchNodes scenario3 (\<lambda>u. location u \<in> set (split CHR '','' '''')) = []"
    by code_simp
  have "criticalResult e scenario3 (split CHR '','' '''') = []"
    unfolding criticalResult_def none
    by (simp add: dependentRows_def dependentCounts_def groupRows_def)
  moreover have "totalResult scenario3 (split CHR '','' '''') = 0"
    unfolding totalResult_def none by simp
  ultimately have "analyze_region e scenario3 (Some ''North'') (Some '''') =
     Inr \<lparr>region = Some ''North'', criticalUnits = [], vulnerabilities = [], totalUnits = 0\<rparr>"
    unfolding analyze_region_eq by simp
  moreover have "root_cause e s ty None = Inl (BadRequest ''Missing type or locations parameter'')"
    by (simp add: root_cause_def split: option.splits)
  moreover have "root_cause e s ty (Some '''') = Inl (BadRequest ''Missing type or locations parameter'')"
    by (simp add: root_cause_def split: option.splits)
  ultimately show ?thesis by (simp add: analyze_region_def)
qed

text \<open>
  Claim C10. In a store with unique ids, when units match the requested type and list of
  locations and none of them has a transitive dependent, \<^verbatim>\<open>GET /root-cause\<close> still
  answers with a result: a unit of the store with the requested type and a location of
  the list as \<^verbatim>\<open>rootCause\<close>, \<^verbatim>\<open>affectedServices\<close> 0, and an empty \<^verbatim>\<open>impactChain\<close>
  and \<^verbatim>\<open>criticalPath\<close>.
\<close>

theorem root_cause_no_dependents:
  assumes "ty \<noteq> []" and "ls \<noteq> []" and "ls \<noteq> [[]]" and "\<forall>l \<in> set ls. CHR '','' \<notin> set l"
    and "unique_ids s"
    and "\<exists>u \<in> set (nodes s). utype u = ty \<and> location u \<in> set ls"
    and "\<forall>c < length (nodes s). utype (nodes s ! c) = ty \<and> location (nodes s ! c) \<in> set ls
           \<longrightarrow> dependents s c = {}"
  shows "\<exists>r. root_cause e s (Some ty) (Some (join '','' ls)) = Inr r \<and>
           rootCause r \<in> set (nodes s) \<and>
           utype (rootCause r) = ty \<and> location (rootCause r) \<in> set ls \<and>
           affectedServices r = 0 \<and> impactChain r = [] \<and> criticalPath r = []"
proof -
  from root_cause_joined [OF assms(1-4), of s e] assms(6) obtain root
    where root: "root < length (nodes s)" "utype (nodes s ! root) = ty"
        "location (nodes s ! root) \<in> set ls"
      and rc: "root_cause e s (Some ty) (Some (join '','' ls)) =
              Inr \<lparr>rootCause = nodes s ! root,
                   impactChain = map (\<lambda>d. nodes s ! d) (impactResult e s (uid (nodes s ! root))),
                   affectedServices = card (dependents s root),
                   criticalPath = map name (map (\<lambda>d. nodes s ! d)
                                                (impactResult e s (uid (nodes s ! root))))\<rparr>"
    by blast
  from root assms(7) have none: "dependents s root = {}" by blast
  then have "impactResult e s (uid (nodes s ! root)) = []"
    using impactResult_unique(2) [OF assms(5) root(1), of e] by simp
  with rc none have "root_cause e s (Some ty) (Some (join '','' ls)) =
      Inr \<lparr>rootCause = nodes s ! root, impactChain = [], affectedServices = 0, criticalPath = []\<rparr>"
    by simp
  with root show ?thesis
    by (intro exI [of _ "\<lparr>rootCause = nodes s ! root, impactChain = [],
          affectedServices = 0, criticalPath = []\<rparr>"]) simp
qed

theorem root_cause_no_dependents_witness:
  "unique_ids tied12 \<and>
   (\<exists>r. root_cause inOrder tied12 (Some ''power'') (Some ''south,north'') = Inr r \<and>
      rootCause r \<in> set (nodes tied12) \<and>
      utype (rootCause r) = ''power'' \<and> location (rootCause r) \<in> set [''south'', ''north''] \<and>
      affectedServices r = 0 \<and> impactChain r = [] \<and> criticalPath r = [])"
proof -
  have u: "unique_ids tied12" by code_simp
  have c: "\<exists>u \<in> set (nodes tied12). utype u = ''power'' \<and> location u \<in> set [''south'', ''north'']"
    by code_simp
  have "\<forall>c. dependents tied12 c = {}" by (simp add: dependents_def tied12_def)
  then show ?thesis
    using root_cause_no_dependents [of "''power''" "[''south'', ''north'']" tied12 inOrder] u c
    by simp
qed

end
